theory Spec2Isabelle
  imports Main "HOL-Library.Multiset"
begin

section \<open>ImageCache: the LRU cache of decoded images\<close>

text \<open>
  \<^verbatim>\<open>class ImageCache\<close> keeps a \<^verbatim>\<open>collections.OrderedDict\<close> and an integer
  \<^verbatim>\<open>max_size\<close>. The ordered dictionary is an association list in iteration order:
  the head is the oldest entry (the one \<^verbatim>\<open>popitem(last=False)\<close> removes), the last
  element the most recently used one. A dictionary holds every key once, so the states
  of the program are the lists whose keys are distinct.
\<close>

record ('k, 'v) ImageCache =
  max_size :: int
  cache :: "('k \<times> 'v) list"

definition ImageCache_init :: "int \<Rightarrow> ('k, 'v) ImageCache" where
  "ImageCache_init n = \<lparr>max_size = n, cache = []\<rparr>"

definition keys :: "('k \<times> 'v) list \<Rightarrow> 'k set" where
  "keys od = fst ` set od"

text \<open>
  \<^verbatim>\<open>OrderedDict.move_to_end(key)\<close>: the entry of the key goes to the end, the others keep
  their order. Both call sites are guarded by \<^verbatim>\<open>if filepath in self.cache\<close>, so the
  KeyError of an absent key cannot happen.
\<close>

definition move_to_end :: "'k \<Rightarrow> ('k \<times> 'v) list \<Rightarrow> ('k \<times> 'v) list" where
  "move_to_end k od = filter (\<lambda>e. fst e \<noteq> k) od @ filter (\<lambda>e. fst e = k) od"

text \<open>\<^verbatim>\<open>ImageCache.get\<close>: the value (or None) and the cache after the call.\<close>

definition get :: "'k \<Rightarrow> ('k, 'v) ImageCache \<Rightarrow> 'v option \<times> ('k, 'v) ImageCache" where
  "get filepath c =
     (if filepath \<in> keys (cache c)
      then (map_of (cache c) filepath, c\<lparr>cache := move_to_end filepath (cache c)\<rparr>)
      else (None, c))"

text \<open>
  \<^verbatim>\<open>ImageCache.put\<close>: a present key is only moved to the end (the stored value stays);
  an absent key is appended and, when the length then exceeds \<^verbatim>\<open>max_size\<close>, the first
  entry is popped.
\<close>

definition put :: "'k \<Rightarrow> 'v \<Rightarrow> ('k, 'v) ImageCache \<Rightarrow> ('k, 'v) ImageCache" where
  "put filepath pixmap c =
     (if filepath \<in> keys (cache c)
      then c\<lparr>cache := move_to_end filepath (cache c)\<rparr>
      else (let od = cache c @ [(filepath, pixmap)]
            in if int (length od) > max_size c then c\<lparr>cache := tl od\<rparr>
               else c\<lparr>cache := od\<rparr>))"

definition clear :: "('k, 'v) ImageCache \<Rightarrow> ('k, 'v) ImageCache" where
  "clear c = c\<lparr>cache := []\<rparr>"

datatype ('k, 'v) cache_op = Get 'k | Put 'k 'v | Clear

fun apply_op :: "('k, 'v) ImageCache \<Rightarrow> ('k, 'v) cache_op \<Rightarrow> ('k, 'v) ImageCache" where
  "apply_op c (Get k) = snd (get k c)"
| "apply_op c (Put k v) = put k v c"
| "apply_op c Clear = clear c"

definition run_ops :: "('k, 'v) ImageCache \<Rightarrow> ('k, 'v) cache_op list \<Rightarrow> ('k, 'v) ImageCache" where
  "run_ops c ops = foldl apply_op c ops"

definition put_all :: "('k, 'v) ImageCache \<Rightarrow> ('k \<times> 'v) list \<Rightarrow> ('k, 'v) ImageCache" where
  "put_all c kvs = foldl (\<lambda>c' kv. put (fst kv) (snd kv) c') c kvs"

text \<open>
  Helper of the proofs: how many entries lie from the entry of key \<open>k\<close> to the end of
  the recency order (the entry itself included); 0 when the key is absent.
\<close>

definition since :: "'k \<Rightarrow> ('k \<times> 'v) list \<Rightarrow> nat" where
  "since k od = length (dropWhile (\<lambda>e. fst e \<noteq> k) od)"

subsection \<open>Decoded values and the completion callback\<close>

text \<open>
  A decoded value is a pixmap or, for an APNG, the list of frame dictionaries
  \<^verbatim>\<open>{"pixmap": ..., "duration": ...}\<close>. Pixmaps are opaque (\<open>'p\<close>).
\<close>

datatype 'p frame = Frame (frame_pixmap: 'p) (frame_duration: int)

datatype 'p decoded = Still 'p | Frames "'p frame list"

text \<open>
  \<^verbatim>\<open>ImagePreviewWidget._on_image_preloaded\<close>: both branches of the
  \<^verbatim>\<open>isinstance(data, list)\<close> test call \<^verbatim>\<open>self.cache.put(filepath, data)\<close>.
\<close>

definition on_image_preloaded ::
  "'k \<Rightarrow> 'p decoded \<Rightarrow> ('k, 'p decoded) ImageCache \<Rightarrow> ('k, 'p decoded) ImageCache" where
  "on_image_preloaded filepath data c =
     (case data of Frames fs \<Rightarrow> put filepath data c | Still pm \<Rightarrow> put filepath data c)"

section \<open>The natural-order key\<close>

text \<open>
  Strings are lists of 8-bit characters, read as the code points 0 to 255. In that
  range the pattern \<^verbatim>\<open>\d\<close> matches exactly the ten ASCII digits.
\<close>

definition isdigit :: "char \<Rightarrow> bool" where
  "isdigit ch = (48 \<le> (of_char ch :: nat) \<and> (of_char ch :: nat) \<le> 57)"

text \<open>
  \<^verbatim>\<open>re.split(r"(\d+)", s)\<close>: the pieces between the maximal digit runs, with the runs
  themselves (the group is capturing) in between. The result has odd length; the text
  before the first run and after the last one may be empty.
\<close>

function re_split_digits :: "string \<Rightarrow> string list" where
  "re_split_digits s =
     (let pre = takeWhile (\<lambda>ch. \<not> isdigit ch) s;
          rest = dropWhile (\<lambda>ch. \<not> isdigit ch) s
      in if rest = [] then [pre]
         else pre # takeWhile isdigit rest # re_split_digits (dropWhile isdigit rest))"
  by pat_completeness auto
termination
proof (relation "measure length")
  show "wf (measure length)" by simp
next
  fix s :: string and pre rest
  assume rest: "rest = dropWhile (\<lambda>ch. \<not> isdigit ch) s" and ne: "rest \<noteq> []"
  from ne obtain d ds where ds: "rest = d # ds" by (cases rest) auto
  with rest have "isdigit d" by (metis hd_dropWhile list.sel(1) ne)
  then have "length (dropWhile isdigit rest) \<le> length ds"
    by (simp add: ds length_dropWhile_le)
  also have "\<dots> < length rest" by (simp add: ds)
  also have "\<dots> \<le> length s" by (simp add: rest length_dropWhile_le)
  finally show "(dropWhile isdigit rest, s) \<in> measure length" by simp
qed

datatype token = is_Str: Str string | is_Num: Num int

definition digit_value :: "string \<Rightarrow> int" where
  "digit_value ds = foldl (\<lambda>a ch. 10 * a + (int (of_char ch) - 48)) 0 ds"

text \<open>
  \<^verbatim>\<open>try_int\<close>: \<^verbatim>\<open>int(c)\<close>, and \<open>c\<close> itself when that raises. \<^verbatim>\<open>int\<close> raises on every
  string without a digit and returns the decimal value of a non-empty string of
  digits; \<^verbatim>\<open>re.split\<close> hands it no other kind of string (lemma \<open>re_split_digits_pieces\<close>).
\<close>

definition try_int :: "string \<Rightarrow> token" where
  "try_int c = (if c \<noteq> [] \<and> list_all isdigit c then Num (digit_value c) else Str c)"

definition natural_key :: "string \<Rightarrow> token list" where
  "natural_key s = map try_int (re_split_digits s)"

text \<open>
  Helpers of the proofs. \<open>pieces_ok inner ps\<close>: the pieces alternate between text
  without a digit and non-empty runs of digits, starting and ending with text; the text
  before a run is not empty, except (when \<open>inner\<close> is false) the very first piece.
  \<open>typed_from b ts\<close>: the tokens alternate between strings and integers, starting
  with a string when \<open>b\<close> holds.
\<close>

fun pieces_ok :: "bool \<Rightarrow> string list \<Rightarrow> bool" where
  "pieces_ok inner [] = False"
| "pieces_ok inner [p] = list_all (\<lambda>ch. \<not> isdigit ch) p"
| "pieces_ok inner (p # d # rest) =
     (list_all (\<lambda>ch. \<not> isdigit ch) p \<and> (inner \<longrightarrow> p \<noteq> []) \<and>
      d \<noteq> [] \<and> list_all isdigit d \<and> pieces_ok True rest)"

fun typed_from :: "bool \<Rightarrow> token list \<Rightarrow> bool" where
  "typed_from b [] = True"
| "typed_from b (t # ts) = ((if b then is_Str t else is_Num t) \<and> typed_from (\<not> b) ts)"

subsection \<open>Comparing keys and sorting as Python does\<close>

datatype py_error = TypeError

text \<open>\<^verbatim>\<open>str < str\<close>: lexicographic on the code points.\<close>

fun str_lt :: "string \<Rightarrow> string \<Rightarrow> bool" where
  "str_lt [] [] = False"
| "str_lt [] (y # ys) = True"
| "str_lt (x # xs) [] = False"
| "str_lt (x # xs) (y # ys) =
     (if x = y then str_lt xs ys else (of_char x :: nat) < of_char y)"

text \<open>
  \<^verbatim>\<open><\<close> between two elements of a key: integers by value, strings lexicographically,
  and a TypeError between an integer and a string.
\<close>

fun token_lt :: "token \<Rightarrow> token \<Rightarrow> py_error + bool" where
  "token_lt (Str a) (Str b) = Inr (str_lt a b)"
| "token_lt (Num a) (Num b) = Inr (a < b)"
| "token_lt (Str a) (Num b) = Inl TypeError"
| "token_lt (Num a) (Str b) = Inl TypeError"

text \<open>
  \<^verbatim>\<open>list < list\<close>: the first position where the elements are not equal decides with
  \<^verbatim>\<open><\<close> of the two elements; without such a position the shorter list is smaller.
\<close>

fun list_lt :: "token list \<Rightarrow> token list \<Rightarrow> py_error + bool" where
  "list_lt [] [] = Inr False"
| "list_lt [] (y # ys) = Inr True"
| "list_lt (x # xs) [] = Inr False"
| "list_lt (x # xs) (y # ys) = (if x = y then list_lt xs ys else token_lt x y)"

text \<open>
  \<^verbatim>\<open>sorted(xs, key=f)\<close> and \<^verbatim>\<open>xs.sort(key=f)\<close>: a stable sort that compares keys with
  \<^verbatim>\<open><\<close> only and passes on the exception of a comparison. It is written as the stable
  insertion sort: an element goes before the first later element whose key is not
  smaller than its own.
\<close>

fun insert_key :: "('a \<Rightarrow> token list) \<Rightarrow> 'a \<Rightarrow> 'a list \<Rightarrow> py_error + 'a list" where
  "insert_key f x [] = Inr [x]"
| "insert_key f x (y # ys) =
     (case list_lt (f y) (f x) of
        Inl e \<Rightarrow> Inl e
      | Inr True \<Rightarrow> (case insert_key f x ys of Inl e \<Rightarrow> Inl e | Inr zs \<Rightarrow> Inr (y # zs))
      | Inr False \<Rightarrow> Inr (x # y # ys))"

fun sorted_key :: "('a \<Rightarrow> token list) \<Rightarrow> 'a list \<Rightarrow> py_error + 'a list" where
  "sorted_key f [] = Inr []"
| "sorted_key f (x # xs) =
     (case sorted_key f xs of Inl e \<Rightarrow> Inl e | Inr ys \<Rightarrow> insert_key f x ys)"

section \<open>The grouping index\<close>

text \<open>\<^verbatim>\<open>s.split(sep)\<close> for a separator of one character: never an empty list.\<close>

fun split_on :: "char \<Rightarrow> string \<Rightarrow> string list" where
  "split_on sep [] = [[]]"
| "split_on sep (ch # cs) =
     (if ch = sep then [] # split_on sep cs
      else (case split_on sep cs of [] \<Rightarrow> [[ch]] | p # ps \<Rightarrow> (ch # p) # ps))"

definition extract_middle_number :: "string \<Rightarrow> string" where
  "extract_middle_number name =
     (let parts = split_on (CHR ''_'') name
      in if length parts \<ge> 3 then parts ! 1 else [])"

text \<open>
  \<^verbatim>\<open>d.setdefault(key, []).append(f)\<close> on a dictionary in insertion order: a present
  key keeps its place and gets \<open>f\<close> at the end of its list, an absent key is added
  last with the list \<open>[f]\<close>.
\<close>

fun setdefault_append :: "'k \<Rightarrow> 'a \<Rightarrow> ('k \<times> 'a list) list \<Rightarrow> ('k \<times> 'a list) list" where
  "setdefault_append k f [] = [(k, [f])]"
| "setdefault_append k f ((k', fs) # d) =
     (if k' = k then (k', fs @ [f]) # d else (k', fs) # setdefault_append k f d)"

text \<open>Helper of the proofs: the grouping loop for any key function.\<close>

definition group_with :: "('a \<Rightarrow> 'k) \<Rightarrow> 'a list \<Rightarrow> ('k \<times> 'a list) list" where
  "group_with g xs = foldl (\<lambda>d f. setdefault_append (g f) f d) [] xs"

definition get_middle_groups :: "string list \<Rightarrow> (string \<times> string list) list" where
  "get_middle_groups filelist =
     foldl (\<lambda>d f. setdefault_append (extract_middle_number f) f d) [] filelist"

text \<open>\<^verbatim>\<open>d.get(key, [])\<close>.\<close>

definition dict_get :: "('k \<times> 'a list) list \<Rightarrow> 'k \<Rightarrow> 'a list" where
  "dict_get d k = (case map_of d k of None \<Rightarrow> [] | Some fs \<Rightarrow> fs)"

text \<open>
  \<^verbatim>\<open>scan_folder\<close>, the grouping part: the image files are grouped by the text before
  the first underscore, then every group is sorted by the natural key. An exception
  leaves the \<^verbatim>\<open>try\<close> block (\<open>Inl\<close>).
\<close>

definition group_by_prefix :: "string list \<Rightarrow> (string \<times> string list) list" where
  "group_by_prefix image_files =
     foldl (\<lambda>d filename. setdefault_append (hd (split_on (CHR ''_'') filename)) filename d)
       [] image_files"

fun sort_groups :: "(string \<times> string list) list \<Rightarrow> py_error + (string \<times> string list) list" where
  "sort_groups [] = Inr []"
| "sort_groups ((k, fs) # d) =
     (case sorted_key natural_key fs of
        Inl e \<Rightarrow> Inl e
      | Inr fs' \<Rightarrow> (case sort_groups d of Inl e \<Rightarrow> Inl e | Inr d' \<Rightarrow> Inr ((k, fs') # d')))"

definition scan_folder :: "string list \<Rightarrow> py_error + (string \<times> string list) list" where
  "scan_folder image_files = sort_groups (group_by_prefix image_files)"

text \<open>
  \<^verbatim>\<open>on_left_select\<close> lists the middle keys of a top group in the order
  \<^verbatim>\<open>sorted(middle_groups.keys(), key=self.natural_key)\<close>; every consumer reads the
  files of a middle key with \<^verbatim>\<open>middle_groups.get(middle_key, [])\<close>. The concatenation
  of the middle lists in that order:
\<close>

definition sorted_middle_keys :: "string list \<Rightarrow> py_error + string list" where
  "sorted_middle_keys filelist = sorted_key natural_key (map fst (get_middle_groups filelist))"

definition middle_concat :: "string list \<Rightarrow> py_error + string list" where
  "middle_concat filelist =
     (case sorted_middle_keys filelist of
        Inl e \<Rightarrow> Inl e
      | Inr ks \<Rightarrow> Inr (concat (map (dict_get (get_middle_groups filelist)) ks)))"

section \<open>The navigation cursor of the full-screen viewer\<close>

text \<open>
  The viewer reads the parent's list widgets. \<open>tops\<close> stands for what they show: one
  element per row of \<^verbatim>\<open>left_list\<close>, holding the rows \<^verbatim>\<open>middle_list\<close> shows when that row
  is selected, each with the file list of its middle group. \<^verbatim>\<open>currentRow()\<close> is -1
  without a current item. \<^verbatim>\<open>right_list\<close> is written by the viewer and never read by
  it, so it is left out.
\<close>

record viewer =
  tops :: "string list list list"
  left_row :: int
  middle_row :: int
  current_index :: int
  closed :: bool

definition left_count :: "viewer \<Rightarrow> int" where
  "left_count s = int (length (tops s))"

definition middle_rows :: "viewer \<Rightarrow> string list list" where
  "middle_rows s =
     (if 0 \<le> left_row s \<and> left_row s < left_count s then tops s ! nat (left_row s) else [])"

definition middle_count :: "viewer \<Rightarrow> int" where
  "middle_count s = int (length (middle_rows s))"

text \<open>
  \<^verbatim>\<open>left_list.setCurrentRow(r)\<close> emits \<^verbatim>\<open>itemSelectionChanged\<close>, and \<^verbatim>\<open>on_left_select\<close>
  fills \<^verbatim>\<open>middle_list\<close> for the new row and selects its row 0 when there is one.
\<close>

definition left_setCurrentRow :: "int \<Rightarrow> viewer \<Rightarrow> viewer" where
  "left_setCurrentRow r s =
     (let s1 = s\<lparr>left_row := r\<rparr>
      in s1\<lparr>middle_row := (if middle_count s1 > 0 then 0 else - 1)\<rparr>)"

definition middle_setCurrentRow :: "int \<Rightarrow> viewer \<Rightarrow> viewer" where
  "middle_setCurrentRow r s = s\<lparr>middle_row := r\<rparr>"

definition get_all_files_in_current_group :: "viewer \<Rightarrow> string list" where
  "get_all_files_in_current_group s =
     (if 0 \<le> middle_row s \<and> middle_row s < middle_count s
      then middle_rows s ! nat (middle_row s) else [])"

definition show_current_image :: "viewer \<Rightarrow> viewer" where
  "show_current_image s =
     (let files = get_all_files_in_current_group s
      in if files = [] then s\<lparr>closed := True\<rparr>
         else s\<lparr>current_index := max 0 (min (current_index s) (int (length files) - 1))\<rparr>)"

definition move_to_next_left_group :: "viewer \<Rightarrow> bool \<times> viewer" where
  "move_to_next_left_group s =
     (let current_row = left_row s
      in if current_row < left_count s - 1
         then (let s1 = left_setCurrentRow (current_row + 1) s;
                   s2 = (if middle_count s1 > 0 then middle_setCurrentRow 0 s1 else s1)
               in (True, show_current_image (s2\<lparr>current_index := 0\<rparr>)))
         else (False, s))"

definition move_to_prev_left_group :: "viewer \<Rightarrow> bool \<times> viewer" where
  "move_to_prev_left_group s =
     (let current_row = left_row s
      in if current_row > 0
         then (let s1 = left_setCurrentRow (current_row - 1) s;
                   count = middle_count s1;
                   s2 = (if count > 0 then middle_setCurrentRow (count - 1) s1 else s1)
               in (True, show_current_image (s2\<lparr>current_index := 0\<rparr>)))
         else (False, s))"

definition move_to_next_middle_group :: "viewer \<Rightarrow> bool \<times> viewer" where
  "move_to_next_middle_group s =
     (let current_row = middle_row s
      in if current_row < middle_count s - 1
         then (True, show_current_image
                       ((middle_setCurrentRow (current_row + 1) s)\<lparr>current_index := 0\<rparr>))
         else move_to_next_left_group s)"

definition move_to_prev_middle_group :: "viewer \<Rightarrow> bool \<times> viewer" where
  "move_to_prev_middle_group s =
     (let current_row = middle_row s
      in if current_row > 0
         then (True, show_current_image
                       ((middle_setCurrentRow (current_row - 1) s)\<lparr>current_index := 0\<rparr>))
         else move_to_prev_left_group s)"

text \<open>\<^verbatim>\<open>keyPressEvent\<close>, the branches of \<^verbatim>\<open>Key_Right\<close> and \<^verbatim>\<open>Key_Left\<close>.\<close>

definition keyPressEvent_Right :: "viewer \<Rightarrow> viewer" where
  "keyPressEvent_Right s =
     (let s1 = s\<lparr>current_index := current_index s + 1\<rparr>;
          files = get_all_files_in_current_group s1
      in if current_index s1 \<ge> int (length files)
         then (case move_to_next_middle_group s1 of
                 (True, s2) \<Rightarrow> s2
               | (False, s2) \<Rightarrow> show_current_image (s2\<lparr>current_index := 0\<rparr>))
         else show_current_image s1)"

definition keyPressEvent_Left :: "viewer \<Rightarrow> viewer" where
  "keyPressEvent_Left s =
     (let s1 = s\<lparr>current_index := current_index s - 1\<rparr>
      in if current_index s1 < 0
         then (case move_to_prev_middle_group s1 of
                 (True, s2) \<Rightarrow> s2
               | (False, s2) \<Rightarrow>
                   (let files = get_all_files_in_current_group s2
                    in show_current_image (s2\<lparr>current_index := int (length files) - 1\<rparr>)))
         else show_current_image s1)"

text \<open>The file under the cursor, when there is one.\<close>

definition current_file :: "viewer \<Rightarrow> string option" where
  "current_file s =
     (let files = get_all_files_in_current_group s
      in if 0 \<le> current_index s \<and> current_index s < int (length files)
         then Some (files ! nat (current_index s)) else None)"

text \<open>
  The cursor is on the last file of the last middle group of the last top group, or
  on the first file of the first middle group of the first top group.
\<close>

definition at_last_file :: "viewer \<Rightarrow> bool" where
  "at_last_file s =
     (tops s \<noteq> [] \<and> left_row s = left_count s - 1 \<and>
      middle_rows s \<noteq> [] \<and> middle_row s = middle_count s - 1 \<and>
      get_all_files_in_current_group s \<noteq> [] \<and>
      current_index s = int (length (get_all_files_in_current_group s)) - 1)"

definition at_first_file :: "viewer \<Rightarrow> bool" where
  "at_first_file s =
     (tops s \<noteq> [] \<and> left_row s = 0 \<and> middle_rows s \<noteq> [] \<and> middle_row s = 0 \<and>
      get_all_files_in_current_group s \<noteq> [] \<and> current_index s = 0)"

text \<open>Two top groups, each with one middle group of one file.\<close>

definition two_groups :: "string list list list" where
  "two_groups = [[[''a_1_x.png'']], [[''b_1_y.png'']]]"

section \<open>The animation player\<close>

record 'p player =
  apng_frames :: "'p frame list"
  apng_frame_index :: int
  current_pixmap :: "'p option"
  timer_active :: bool
  timer_interval :: int

definition show_apng_frame :: "int \<Rightarrow> 'p player \<Rightarrow> 'p player" where
  "show_apng_frame index s =
     (if 0 \<le> index \<and> index < int (length (apng_frames s))
      then s\<lparr>current_pixmap := Some (frame_pixmap (apng_frames s ! nat index)),
             apng_frame_index := index\<rparr>
      else s)"

text \<open>
  \<^verbatim>\<open>_next_apng_frame\<close>, the slot of the timer (the same code in both widgets). The index
  read for the duration is a remainder by the positive length, so it is in range.
\<close>

definition next_apng_frame :: "'p player \<Rightarrow> 'p player" where
  "next_apng_frame s =
     (if apng_frames s = [] then s\<lparr>timer_active := False\<rparr>
      else (let s1 = s\<lparr>apng_frame_index :=
                         (apng_frame_index s + 1) mod int (length (apng_frames s))\<rparr>;
                s2 = show_apng_frame (apng_frame_index s1) s1;
                duration = frame_duration (apng_frames s2 ! nat (apng_frame_index s2))
            in s2\<lparr>timer_interval := duration\<rparr>))"

text \<open>
  \<^verbatim>\<open>_show_cached_apng\<close>: stop the timer, take the frames, show frame 0 and start the
  timer with the duration of frame 0 when there is more than one frame.
\<close>

definition show_cached_apng :: "'p frame list \<Rightarrow> 'p player \<Rightarrow> 'p player" where
  "show_cached_apng frames s =
     (let s1 = s\<lparr>timer_active := False, apng_frames := frames, apng_frame_index := 0\<rparr>
      in if apng_frames s1 \<noteq> []
         then (let s2 = show_apng_frame 0 s1
               in if length (apng_frames s2) > 1
                  then s2\<lparr>timer_active := True,
                          timer_interval := frame_duration (apng_frames s2 ! 0)\<rparr>
                  else s2)
         else s1)"

definition three_frames :: "nat frame list" where
  "three_frames = [Frame 0 50, Frame 1 100, Frame 2 150]"

definition idle_player :: "nat player" where
  "idle_player = \<lparr>apng_frames = [], apng_frame_index = 0, current_pixmap = None,
                  timer_active = False, timer_interval = 0\<rparr>"

section \<open>The preloader worker\<close>

text \<open>
  What the worker asks of the file system, PIL and Qt. A call that can raise returns a
  sum; the exception is opaque (\<open>'x\<close>).
  \<^item> \<open>path_exists\<close>: \<^verbatim>\<open>os.path.exists\<close>;
  \<^item> \<open>splitext_lower\<close>: \<^verbatim>\<open>os.path.splitext(filepath)[1].lower()\<close>;
  \<^item> \<open>pil_is_animated\<close>: \<^verbatim>\<open>Image.open\<close> and the attribute \<^verbatim>\<open>is_animated\<close> (False when
    the image has none);
  \<^item> \<open>pil_frames\<close>: \<^verbatim>\<open>Image.open\<close>, then for every frame index the pixmap and the
    \<^verbatim>\<open>duration\<close> entry of \<^verbatim>\<open>img.info\<close>, if it has one;
  \<^item> \<open>qpixmap\<close>: \<^verbatim>\<open>QtGui.QPixmap(filepath)\<close>, None for a null pixmap.
\<close>

record ('p, 'x) env =
  path_exists :: "string \<Rightarrow> bool"
  splitext_lower :: "string \<Rightarrow> string"
  pil_is_animated :: "string \<Rightarrow> 'x + bool"
  pil_frames :: "string \<Rightarrow> 'x + ('p \<times> int option) list"
  qpixmap :: "string \<Rightarrow> 'x + 'p option"

datatype 'p event = ImageLoaded string "'p decoded"

text \<open>\<^verbatim>\<open>_is_apng\<close>: any exception gives False.\<close>

definition is_apng :: "('p, 'x) env \<Rightarrow> string \<Rightarrow> bool" where
  "is_apng env filepath =
     (case pil_is_animated env filepath of Inl e \<Rightarrow> False | Inr b \<Rightarrow> b)"

text \<open>
  \<^verbatim>\<open>_load_apng_frames\<close>: every frame with its duration, 100 when the image declares
  none; None for an empty list and for any exception.
\<close>

definition load_apng_frames :: "('p, 'x) env \<Rightarrow> string \<Rightarrow> 'p frame list option" where
  "load_apng_frames env filepath =
     (case pil_frames env filepath of
        Inl e \<Rightarrow> None
      | Inr raw \<Rightarrow>
          (let frames = map (\<lambda>(pm, d). Frame pm (case d of None \<Rightarrow> 100 | Some ms \<Rightarrow> ms)) raw
           in if frames \<noteq> [] then Some frames else None))"

text \<open>
  The body of the \<^verbatim>\<open>try\<close> block of \<^verbatim>\<open>run\<close> for a popped path, after the stop check: the
  events it emits, or the exception that leaves it.
\<close>

definition process_item :: "('p, 'x) env \<Rightarrow> string \<Rightarrow> 'x + 'p event list" where
  "process_item env filepath =
     (if \<not> path_exists env filepath then Inr []
      else (let ext = splitext_lower env filepath
            in if ext = ''.png'' \<and> is_apng env filepath
               then (case load_apng_frames env filepath of
                       Some frames \<Rightarrow> Inr [ImageLoaded filepath (Frames frames)]
                     | None \<Rightarrow> Inr [])
               else (case qpixmap env filepath of
                       Inl e \<Rightarrow> Inl e
                     | Inr None \<Rightarrow> Inr []
                     | Inr (Some pixmap) \<Rightarrow> Inr [ImageLoaded filepath (Still pixmap)])))"

text \<open>
  One iteration of the \<^verbatim>\<open>while\<close> loop sees the flag \<^verbatim>\<open>stop_requested\<close> in the loop
  test, then the result of \<^verbatim>\<open>queue.get(timeout=1.0)\<close> (the timeout, or an item, None
  being the sentinel of \<^verbatim>\<open>stop\<close>), then the flag again in the check after the get. The
  flag is written by the other thread, so both readings are inputs.
\<close>

datatype get_result = QueueEmpty | Got "string option"

record ('p, 'x) worker =
  events :: "'p event list"
  logged :: "'x list"
  running :: bool

fun run :: "('p, 'x) env \<Rightarrow> (bool \<times> get_result \<times> bool) list \<Rightarrow> ('p, 'x) worker \<Rightarrow> ('p, 'x) worker" where
  "run env [] w = w"
| "run env ((stop_in_test, got, stop_after_get) # rest) w =
     (if stop_in_test then w\<lparr>running := False\<rparr>
      else (case got of
              QueueEmpty \<Rightarrow> run env rest w
            | Got None \<Rightarrow> w\<lparr>running := False\<rparr>
            | Got (Some filepath) \<Rightarrow>
                (if stop_after_get then w\<lparr>running := False\<rparr>
                 else (case process_item env filepath of
                         Inl e \<Rightarrow> run env rest (w\<lparr>logged := logged w @ [e]\<rparr>)
                       | Inr evs \<Rightarrow> run env rest (w\<lparr>events := events w @ evs\<rparr>)))))"

text \<open>
  The decode of a path succeeds with the value \<open>d\<close>: the file exists and either it is
  an animated PNG whose frames were all read, or it is not and Qt gave a pixmap that is
  not null.
\<close>

definition decodes_to :: "('p, 'x) env \<Rightarrow> string \<Rightarrow> 'p decoded \<Rightarrow> bool" where
  "decodes_to env filepath d =
     (path_exists env filepath \<and>
      (if splitext_lower env filepath = ''.png'' \<and> pil_is_animated env filepath = Inr True
       then (\<exists>raw. pil_frames env filepath = Inr raw \<and> raw \<noteq> [] \<and>
               d = Frames (map (\<lambda>(pm, ms). Frame pm (case ms of None \<Rightarrow> 100 | Some m \<Rightarrow> m)) raw))
       else (\<exists>pm. qpixmap env filepath = Inr (Some pm) \<and> d = Still pm)))"

text \<open>
  What one popped path adds to the emitted events, and to the log of the
  \<^verbatim>\<open>except Exception\<close> handler.
\<close>

definition emitted :: "('p, 'x) env \<Rightarrow> string \<Rightarrow> 'p event list" where
  "emitted env filepath = (case process_item env filepath of Inl e \<Rightarrow> [] | Inr evs \<Rightarrow> evs)"

definition raised :: "('p, 'x) env \<Rightarrow> string \<Rightarrow> 'x list" where
  "raised env filepath = (case process_item env filepath of Inl e \<Rightarrow> [e] | Inr evs \<Rightarrow> [])"

text \<open>The iterations that pop the given paths while no stop is requested.\<close>

definition pops :: "string list \<Rightarrow> (bool \<times> get_result \<times> bool) list" where
  "pops paths = map (\<lambda>filepath. (False, Got (Some filepath), False)) paths"

text \<open>
  An environment for the examples: a good still image, a good animated PNG, an animated
  PNG whose frames cannot be read, a missing file, a file on which Qt raises, and null
  pixmaps for the rest.
\<close>

definition demo_env :: "(nat, string) env" where
  "demo_env = \<lparr>path_exists = (\<lambda>f. f \<noteq> ''gone.jpg''),
               splitext_lower = (\<lambda>f. drop (length f - 4) f),
               pil_is_animated = (\<lambda>f. if f = ''anim.png'' \<or> f = ''broken.png'' then Inr True
                                       else Inr False),
               pil_frames = (\<lambda>f. if f = ''anim.png'' then Inr [(1, Some 50), (2, None)]
                                  else Inl ''cannot identify image file''),
               qpixmap = (\<lambda>f. if f = ''ok.jpg'' then Inr (Some 7)
                               else if f = ''bad.jpg'' then Inl ''out of memory''
                               else Inr None)\<rparr>"

definition fresh_worker :: "(nat, string) worker" where
  "fresh_worker = \<lparr>events = [], logged = [], running = True\<rparr>"

section \<open>Properties of the cache\<close>

lemma length_move_to_end: "length (move_to_end k od) = length od"
  unfolding move_to_end_def
  by (induction od) auto

lemma keys_move_to_end: "keys (move_to_end k od) = keys od"
  unfolding move_to_end_def keys_def by auto

lemma distinct_move_to_end:
  "distinct (map fst od) \<Longrightarrow> distinct (map fst (move_to_end k od))"
  unfolding move_to_end_def by (auto simp: distinct_map_filter)

lemma move_to_end_present:
  "distinct (map fst od) \<Longrightarrow> map_of od k = Some v \<Longrightarrow>
     move_to_end k od = filter (\<lambda>e. fst e \<noteq> k) od @ [(k, v)]"
  unfolding move_to_end_def
proof (induction od)
  case Nil
  then show ?case by simp
next
  case (Cons e od)
  show ?case
  proof (cases "fst e = k")
    case True
    with Cons.prems have "k \<notin> fst ` set od" "e = (k, v)" by (auto simp: image_iff)
    then have "filter (\<lambda>e. fst e = k) od = []" by (auto simp: filter_empty_conv)
    with True \<open>e = (k, v)\<close> show ?thesis by simp
  next
    case False
    with Cons show ?thesis by auto
  qed
qed

lemma distinct_put:
  "distinct (map fst (cache c)) \<Longrightarrow> distinct (map fst (cache (put k v c)))"
  unfolding put_def
  by (auto simp: Let_def distinct_move_to_end keys_def distinct_tl map_tl)

lemma distinct_get:
  "distinct (map fst (cache c)) \<Longrightarrow> distinct (map fst (cache (snd (get k c))))"
  unfolding get_def by (auto simp: distinct_move_to_end)

lemma max_size_put [simp]: "max_size (put k v c) = max_size c"
  unfolding put_def by (simp add: Let_def)

lemma max_size_get [simp]: "max_size (snd (get k c)) = max_size c"
  unfolding get_def by simp

lemma max_size_clear [simp]: "max_size (clear c) = max_size c"
  unfolding clear_def by simp

lemma max_size_apply_op [simp]: "max_size (apply_op c x) = max_size c"
  by (cases x) simp_all

lemma length_put_le:
  "0 \<le> max_size c \<Longrightarrow> int (length (cache c)) \<le> max_size c \<Longrightarrow>
     int (length (cache (put k v c))) \<le> max_size c"
  unfolding put_def by (auto simp: Let_def length_move_to_end)

lemma length_apply_op_le:
  "0 \<le> max_size c \<Longrightarrow> int (length (cache c)) \<le> max_size c \<Longrightarrow>
     int (length (cache (apply_op c x))) \<le> max_size c"
  by (cases x) (auto simp: length_put_le get_def clear_def length_move_to_end)

lemma length_run_ops_le:
  "int (length (cache c)) \<le> max_size c \<Longrightarrow>
     int (length (cache (run_ops c ops))) \<le> max_size c \<and> max_size (run_ops c ops) = max_size c"
  unfolding run_ops_def
proof (induction ops arbitrary: c)
  case Nil
  then show ?case by simp
next
  case (Cons x ops)
  have "0 \<le> max_size c" using Cons.prems by linarith
  then have "int (length (cache (apply_op c x))) \<le> max_size (apply_op c x)"
    using Cons.prems by (simp add: length_apply_op_le)
  from Cons.IH [OF this] show ?case by simp
qed

lemma put_absent:
  "k \<notin> keys (cache c) \<Longrightarrow>
     cache (put k v c) =
       (if int (length (cache c)) + 1 > max_size c then tl (cache c @ [(k, v)])
        else cache c @ [(k, v)])"
  unfolding put_def by (simp add: Let_def)

lemma put_present:
  "k \<in> keys (cache c) \<Longrightarrow> cache (put k v c) = move_to_end k (cache c)"
  unfolding put_def by simp

lemma keys_put_subset: "keys (cache (put k v c)) \<subseteq> insert k (keys (cache c))"
proof (cases "k \<in> keys (cache c)")
  case True
  then show ?thesis by (auto simp: put_def keys_move_to_end)
next
  case False
  have "set (tl (cache c @ [(k, v)])) \<subseteq> set (cache c @ [(k, v)])"
    by (rule list.set_sel(2) [THEN subsetI]) simp
  then show ?thesis
    using False unfolding put_absent [OF False] keys_def by auto
qed

lemma put_all_Cons: "put_all c (kv # kvs) = put_all (put (fst kv) (snd kv) c) kvs"
  by (simp add: put_all_def)

lemma put_all_snoc: "put_all c (kvs @ [kv]) = put (fst kv) (snd kv) (put_all c kvs)"
  by (simp add: put_all_def)

lemma max_size_put_all [simp]: "max_size (put_all c kvs) = max_size c"
  by (induction kvs arbitrary: c) (simp_all add: put_all_def)

lemma put_all_fits:
  "distinct (map fst kvs) \<Longrightarrow> keys (cache c) \<inter> fst ` set kvs = {} \<Longrightarrow>
     int (length (cache c)) + int (length kvs) \<le> max_size c \<Longrightarrow>
     cache (put_all c kvs) = cache c @ kvs"
proof (induction kvs arbitrary: c)
  case Nil
  then show ?case by (simp add: put_all_def)
next
  case (Cons kv kvs)
  obtain k v where kv: "kv = (k, v)" by (cases kv)
  from Cons.prems have absent: "k \<notin> keys (cache c)" by (auto simp: kv)
  from Cons.prems have step: "cache (put k v c) = cache c @ [(k, v)]"
    by (simp add: put_absent [OF absent])
  have "cache (put_all (put k v c) kvs) = cache (put k v c) @ kvs"
  proof (rule Cons.IH)
    show "distinct (map fst kvs)" using Cons.prems by simp
    show "keys (cache (put k v c)) \<inter> fst ` set kvs = {}"
      using Cons.prems by (auto simp: step keys_def kv)
    show "int (length (cache (put k v c))) + int (length kvs) \<le> max_size (put k v c)"
      using Cons.prems by (simp add: step)
  qed
  then show ?case by (simp add: put_all_Cons kv step)
qed

lemma put_all_one_too_many:
  assumes "distinct (map fst kvs)" "int (length kvs) = N + 1" "0 \<le> N"
  shows "cache (put_all (ImageCache_init N) kvs) = tl kvs"
proof -
  from assms have "kvs \<noteq> []" by auto
  then obtain xs x where kvs: "kvs = xs @ [x]" by (metis rev_exhaust)
  have xs: "cache (put_all (ImageCache_init N) xs) = xs"
    using assms by (subst put_all_fits) (auto simp: kvs ImageCache_init_def keys_def)
  have absent: "fst x \<notin> keys (cache (put_all (ImageCache_init N) xs))"
    using assms(1) by (auto simp: xs kvs keys_def)
  have "cache (put_all (ImageCache_init N) kvs) = tl (xs @ [(fst x, snd x)])"
    using assms(2) unfolding kvs put_all_snoc put_absent [OF absent] xs
    by (simp add: ImageCache_init_def)
  then show ?thesis by (simp add: kvs)
qed

lemma dropWhile_append_ex:
  "\<exists>x\<in>set xs. \<not> P x \<Longrightarrow> dropWhile P (xs @ ys) = dropWhile P xs @ ys"
  by (induction xs) auto


lemma put_new_keeps:
  assumes pres: "k \<in> keys (cache c)" and new: "k' \<notin> keys (cache c)"
    and room: "int (since k (cache c)) < max_size c"
  shows "k \<in> keys (cache (put k' v c)) \<and> since k (cache (put k' v c)) = since k (cache c) + 1"
proof -
  let ?P = "\<lambda>e. fst e \<noteq> k"
  from pres obtain e od where od: "cache c = e # od" by (cases "cache c") (auto simp: keys_def)
  from pres have ex: "\<exists>x\<in>set (cache c). \<not> ?P x" by (auto simp: keys_def)
  have app: "dropWhile ?P (cache c @ [(k', v)]) = dropWhile ?P (cache c) @ [(k', v)]"
    using ex by (rule dropWhile_append_ex)
  show ?thesis
  proof (cases "int (length (cache c)) + 1 > max_size c")
    case False
    then have "cache (put k' v c) = cache c @ [(k', v)]" by (simp add: put_absent [OF new])
    then show ?thesis using pres app by (simp add: since_def keys_def)
  next
    case True
    then have res: "cache (put k' v c) = od @ [(k', v)]" by (simp add: put_absent [OF new] od)
    have "fst e \<noteq> k"
    proof
      assume "fst e = k"
      then have "since k (cache c) = length (cache c)" by (simp add: since_def od)
      with room True show False by simp
    qed
    then have "k \<in> keys od" "dropWhile ?P (cache c) = dropWhile ?P od"
      using pres by (auto simp: od keys_def)
    moreover have "dropWhile ?P (od @ [(k', v)]) = dropWhile ?P od @ [(k', v)]"
      using \<open>k \<in> keys od\<close> by (intro dropWhile_append_ex) (auto simp: keys_def)
    ultimately show ?thesis by (simp add: res since_def keys_def)
  qed
qed

lemma put_all_new_keeps:
  "k \<in> keys (cache c) \<Longrightarrow> distinct (map fst kvs) \<Longrightarrow> keys (cache c) \<inter> fst ` set kvs = {} \<Longrightarrow>
     int (since k (cache c)) + int (length kvs) \<le> max_size c \<Longrightarrow>
     k \<in> keys (cache (put_all c kvs))"
proof (induction kvs arbitrary: c)
  case Nil
  then show ?case by (simp add: put_all_def)
next
  case (Cons kv kvs)
  obtain k' v where kv: "kv = (k', v)" by (cases kv)
  from Cons.prems have new: "k' \<notin> keys (cache c)" by (auto simp: kv)
  from Cons.prems have room: "int (since k (cache c)) < max_size c" by simp
  note step = put_new_keeps [OF Cons.prems(1) new room, of v]
  have "k \<in> keys (cache (put_all (put k' v c) kvs))"
  proof (rule Cons.IH)
    show "k \<in> keys (cache (put k' v c))" using step by simp
    show "distinct (map fst kvs)" using Cons.prems by simp
    show "keys (cache (put k' v c)) \<inter> fst ` set kvs = {}"
      using Cons.prems keys_put_subset [of k' v c] by (auto simp: kv)
    show "int (since k (cache (put k' v c))) + int (length kvs) \<le> max_size (put k' v c)"
      using Cons.prems step by simp
  qed
  then show ?case by (simp add: put_all_Cons kv)
qed

lemma since_get:
  assumes "distinct (map fst (cache c))" "k \<in> keys (cache c)"
  shows "since k (cache (snd (get k c))) = 1" "keys (cache (snd (get k c))) = keys (cache c)"
proof -
  from assms(2) obtain v where v: "map_of (cache c) k = Some v"
    by (metis keys_def map_of_eq_None_iff not_None_eq)
  have "dropWhile (\<lambda>e. fst e \<noteq> k) (filter (\<lambda>e. fst e \<noteq> k) (cache c) @ [(k, v)]) = [(k, v)]"
    by (subst dropWhile_append2) auto
  then show "since k (cache (snd (get k c))) = 1"
    using assms by (simp add: get_def since_def move_to_end_present [OF assms(1) v])
  show "keys (cache (snd (get k c))) = keys (cache c)"
    by (simp add: get_def keys_move_to_end)
qed

lemma get_then_put_keeps:
  assumes "distinct (map fst (cache c))" "k \<in> keys (cache c)"
    and "distinct (map fst kvs)" "keys (cache c) \<inter> fst ` set kvs = {}"
    and "int (length kvs) < max_size c"
  shows "k \<in> keys (cache (put_all (snd (get k c)) kvs))"
  using assms since_get [OF assms(1,2)]
  by (intro put_all_new_keeps) auto


text \<open>
  C1. From any cache within its capacity N, any sequence of get, put and clear leaves
  at most N entries; a put of an absent key into a full cache drops exactly the head
  of the recency order (the least recently used entry) and keeps the rest in order; N+1
  distinct keys put into the empty cache leave the last N of them, the first one
  (the least recently touched) being the one evicted.
\<close>

theorem ImageCache_capacity_and_lru_eviction:
  fixes c :: "('k, 'v) ImageCache"
  assumes "int (length (cache c)) \<le> max_size c"
  shows "int (length (cache (run_ops c ops))) \<le> max_size c \<and>
         (k \<notin> keys (cache c) \<and> int (length (cache c)) = max_size c \<longrightarrow>
            cache (put k v c) = tl (cache c @ [(k, v)]) \<and>
            int (length (cache (put k v c))) = max_size c) \<and>
         (distinct (map fst kvs) \<and> int (length kvs) = max_size c + 1 \<longrightarrow>
            cache (put_all (ImageCache_init (max_size c)) kvs) = tl kvs \<and>
            int (length (cache (put_all (ImageCache_init (max_size c)) kvs))) = max_size c \<and>
            fst (hd kvs) \<notin> keys (cache (put_all (ImageCache_init (max_size c)) kvs)))"
proof (intro conjI impI)
  show "int (length (cache (run_ops c ops))) \<le> max_size c"
    using length_run_ops_le [OF assms] by simp
next
  assume h: "k \<notin> keys (cache c) \<and> int (length (cache c)) = max_size c"
  then show "cache (put k v c) = tl (cache c @ [(k, v)])"
    by (simp add: put_absent)
  from h show "int (length (cache (put k v c))) = max_size c"
    by (simp add: put_absent)
next
  assume h: "distinct (map fst kvs) \<and> int (length kvs) = max_size c + 1"
  from assms have nonneg: "0 \<le> max_size c" by linarith
  from h have res: "cache (put_all (ImageCache_init (max_size c)) kvs) = tl kvs"
    using nonneg by (simp add: put_all_one_too_many)
  show "cache (put_all (ImageCache_init (max_size c)) kvs) = tl kvs" by (rule res)
  from h nonneg show "int (length (cache (put_all (ImageCache_init (max_size c)) kvs))) = max_size c"
    by (simp add: res)
  from h nonneg have "kvs \<noteq> []" by auto
  then obtain x xs where "kvs = x # xs" by (cases kvs) auto
  with h show "fst (hd kvs) \<notin> keys (cache (put_all (ImageCache_init (max_size c)) kvs))"
    unfolding res by (auto simp: keys_def)
qed

text \<open>C1 on a full cache of capacity 2.\<close>

theorem ImageCache_capacity_and_lru_eviction_witness:
  "int (length (cache (run_ops \<lparr>max_size = 2, cache = [(1::nat, 10::nat), (2, 20)]\<rparr>
          [Get 1, Put 3 30, Put 2 21, Clear, Put 4 40]))) \<le> 2 \<and>
   cache (put 3 30 \<lparr>max_size = 2, cache = [(1::nat, 10::nat), (2, 20)]\<rparr>) = [(2, 20), (3, 30)] \<and>
   cache (put_all (ImageCache_init 2) [(5::nat, 50::nat), (6, 60), (7, 70)]) = [(6, 60), (7, 70)]"
  using ImageCache_capacity_and_lru_eviction
    [of "\<lparr>max_size = 2, cache = [(1::nat, 10::nat), (2, 20)]\<rparr>"
        "[Get 1, Put 3 30, Put 2 21, Clear, Put 4 40]" 3 30 "[(5::nat, 50::nat), (6, 60), (7, 70)]"]
  by (simp add: keys_def)

text \<open>
  C2, as stated, fails: with capacity 2 and the cache holding keys 1 and 2, a get of key
  2 followed by the insertion of 2 new keys leaves the cache without key 2.
\<close>

theorem get_then_capacity_puts_counterexample:
  "2 \<in> keys (cache \<lparr>max_size = 2, cache = [(1::nat, 10::nat), (2, 20)]\<rparr>) \<and>
   2 \<notin> keys (cache (put_all (snd (get 2 \<lparr>max_size = 2, cache = [(1::nat, 10::nat), (2, 20)]\<rparr>))
                      [(3, 30), (4, 40)]))"
  by (simp add: put_all_def put_def get_def keys_def move_to_end_def)

text \<open>
  C2, amended: after a get of a present key, the insertion of at most capacity - 1 new
  distinct keys does not evict that key.
\<close>

theorem get_then_fewer_puts_keeps:
  fixes c :: "('k, 'v) ImageCache"
  assumes "distinct (map fst (cache c))" and "k \<in> keys (cache c)"
    and "distinct (map fst kvs)" and "keys (cache c) \<inter> fst ` set kvs = {}"
    and "int (length kvs) \<le> max_size c - 1"
  shows "k \<in> keys (cache (put_all (snd (get k c)) kvs))"
  using assms by (intro get_then_put_keeps) auto

text \<open>C2, amended, at capacity 3 with two new keys.\<close>

theorem get_then_fewer_puts_keeps_witness:
  "2 \<in> keys (cache (put_all (snd (get 2 \<lparr>max_size = 3, cache = [(1::nat, 10::nat), (2, 20), (5, 50)]\<rparr>))
                      [(3, 30), (4, 40)]))"
  using get_then_fewer_puts_keeps
    [of "\<lparr>max_size = 3, cache = [(1::nat, 10::nat), (2, 20), (5, 50)]\<rparr>" 2 "[(3, 30), (4, 40)]"]
  by (simp add: keys_def)

text \<open>
  C3, as stated, fails: the second completion for a path finds the key present, so
  \<^verbatim>\<open>put\<close> only moves the entry to the end and the value of the first decode stays.
\<close>

theorem second_put_overwrites_counterexample:
  "map_of (cache (on_image_preloaded ''p.png'' (Still (2::nat))
             (on_image_preloaded ''p.png'' (Still 1) (ImageCache_init 5)))) ''p.png''
   = Some (Still 1)"
  by (simp add: on_image_preloaded_def put_def keys_def move_to_end_def ImageCache_init_def)

text \<open>
  C3, amended: when a path that is not cached is decoded twice and both results are
  put, the cache (of capacity at least 1) holds exactly one entry for the path and its
  value is the result of the first decode.
\<close>

theorem second_put_keeps_first_value:
  fixes c :: "(string, 'p decoded) ImageCache"
  assumes "distinct (map fst (cache c))" and "1 \<le> max_size c"
    and "filepath \<notin> keys (cache c)"
  shows "length (filter (\<lambda>e. fst e = filepath)
           (cache (on_image_preloaded filepath d2 (on_image_preloaded filepath d1 c)))) = 1 \<and>
         map_of (cache (on_image_preloaded filepath d2 (on_image_preloaded filepath d1 c))) filepath
           = Some d1"
proof -
  have opl: "\<And>p d (c' :: (string, 'p decoded) ImageCache). on_image_preloaded p d c' = put p d c'"
    by (simp add: on_image_preloaded_def split: decoded.splits)
  let ?c1 = "put filepath d1 c"
  have c1: "cache ?c1 = (if int (length (cache c)) + 1 > max_size c then tl (cache c) else cache c) @ [(filepath, d1)]"
    using assms(2) by (cases "cache c") (auto simp: put_absent [OF assms(3)])
  have d1: "distinct (map fst (cache ?c1))" by (rule distinct_put [OF assms(1)])
  have m1: "map_of (cache ?c1) filepath = Some d1"
    by (rule map_of_is_SomeI [OF d1]) (simp add: c1)
  have in1: "filepath \<in> keys (cache ?c1)" by (simp add: c1 keys_def)
  have c2: "cache (put filepath d2 ?c1) = filter (\<lambda>e. fst e \<noteq> filepath) (cache ?c1) @ [(filepath, d1)]"
    unfolding put_present [OF in1] by (rule move_to_end_present [OF d1 m1])
  have d2: "distinct (map fst (cache (put filepath d2 ?c1)))" by (rule distinct_put [OF d1])
  have "map_of (cache (put filepath d2 ?c1)) filepath = Some d1"
    by (rule map_of_is_SomeI [OF d2]) (simp add: c2)
  moreover have "length (filter (\<lambda>e. fst e = filepath) (cache (put filepath d2 ?c1))) = 1"
    unfolding c2 by (simp add: filter_empty_conv)
  ultimately show ?thesis by (simp add: opl)
qed

text \<open>C3, amended, on a full cache of capacity 1.\<close>

theorem second_put_keeps_first_value_witness:
  "map_of (cache (on_image_preloaded ''p.png'' (Frames [Frame (2::nat) 100])
             (on_image_preloaded ''p.png'' (Still 1)
                \<lparr>max_size = 1, cache = [(''q.png'', Still 0)]\<rparr>))) ''p.png'' = Some (Still 1)"
  using second_put_keeps_first_value
    [of "\<lparr>max_size = 1, cache = [(''q.png'', Still (0::nat))]\<rparr>" "''p.png''" "Frames [Frame 2 100]" "Still 1"]
  by (simp add: keys_def)

section \<open>Properties of the natural-order key\<close>

lemmas re_split_digits_unfold = re_split_digits.simps
declare re_split_digits.simps [simp del]

lemma takeWhile_nodigit: "list_all (\<lambda>ch. \<not> isdigit ch) (takeWhile (\<lambda>ch. \<not> isdigit ch) s)"
  by (induction s) auto

lemma takeWhile_digit: "list_all isdigit (takeWhile isdigit s)"
  by (induction s) auto

lemma dropWhile_nodigit_hd:
  "dropWhile (\<lambda>ch. \<not> isdigit ch) s \<noteq> [] \<Longrightarrow> isdigit (hd (dropWhile (\<lambda>ch. \<not> isdigit ch) s))"
  using hd_dropWhile [of "\<lambda>ch. \<not> isdigit ch" s] by simp

lemma dropWhile_digit_hd:
  "dropWhile isdigit s \<noteq> [] \<Longrightarrow> \<not> isdigit (hd (dropWhile isdigit s))"
  by (rule hd_dropWhile)

lemma re_split_digits_last:
  "dropWhile (\<lambda>ch. \<not> isdigit ch) s = [] \<Longrightarrow>
     re_split_digits s = [takeWhile (\<lambda>ch. \<not> isdigit ch) s]"
  by (subst re_split_digits_unfold) (simp only: Let_def simp_thms if_True)

lemma re_split_digits_more:
  "dropWhile (\<lambda>ch. \<not> isdigit ch) s \<noteq> [] \<Longrightarrow>
     re_split_digits s =
       takeWhile (\<lambda>ch. \<not> isdigit ch) s #
       takeWhile isdigit (dropWhile (\<lambda>ch. \<not> isdigit ch) s) #
       re_split_digits (dropWhile isdigit (dropWhile (\<lambda>ch. \<not> isdigit ch) s))"
  by (subst re_split_digits_unfold) (simp only: Let_def if_False)

lemma re_split_digits_pieces:
  "(inner \<longrightarrow> s = [] \<or> \<not> isdigit (hd s)) \<Longrightarrow> pieces_ok inner (re_split_digits s)"
proof (induction s arbitrary: inner rule: re_split_digits.induct)
  case (1 s)
  let ?pre = "takeWhile (\<lambda>ch. \<not> isdigit ch) s"
  let ?rest = "dropWhile (\<lambda>ch. \<not> isdigit ch) s"
  show ?case
  proof (cases "?rest = []")
    case True
    then show ?thesis
      by (simp add: re_split_digits_last takeWhile_nodigit)
  next
    case False
    let ?s' = "dropWhile isdigit ?rest"
    have hd_rest: "isdigit (hd ?rest)" by (rule dropWhile_nodigit_hd [OF False])
    have digits: "takeWhile isdigit ?rest \<noteq> []"
      using False hd_rest by (cases ?rest) auto
    have "?s' = [] \<or> \<not> isdigit (hd ?s')"
      using dropWhile_digit_hd [of ?rest] by blast
    then have rec: "pieces_ok True (re_split_digits ?s')"
      using "1.IH" [OF refl refl False, of True] by simp
    have pre: "inner \<longrightarrow> ?pre \<noteq> []"
    proof
      assume inner
      with "1.prems" have "s = [] \<or> \<not> isdigit (hd s)" by simp
      with False show "?pre \<noteq> []" by (cases s) auto
    qed
    show ?thesis
      using rec pre digits
      by (simp add: re_split_digits_more [OF False] takeWhile_nodigit takeWhile_digit)
  qed
qed

lemma concat_re_split_digits: "concat (re_split_digits s) = s"
proof (induction s rule: re_split_digits.induct)
  case (1 s)
  let ?rest = "dropWhile (\<lambda>ch. \<not> isdigit ch) s"
  show ?case
  proof (cases "?rest = []")
    case True
    then have "takeWhile (\<lambda>ch. \<not> isdigit ch) s = s"
      by (simp add: takeWhile_eq_all_conv)
    then show ?thesis by (simp add: re_split_digits_last [OF True])
  next
    case False
    have IH: "concat (re_split_digits (dropWhile isdigit ?rest)) = dropWhile isdigit ?rest"
      by (rule "1.IH" [OF refl refl False])
    have "concat (re_split_digits s) =
            takeWhile (\<lambda>ch. \<not> isdigit ch) s @ (takeWhile isdigit ?rest @ dropWhile isdigit ?rest)"
      unfolding re_split_digits_more [OF False] concat.simps IH ..
    also have "\<dots> = s"
      unfolding takeWhile_dropWhile_id ..
    finally show ?thesis .
  qed
qed

lemma pieces_ok_nth:
  "pieces_ok inner ps \<Longrightarrow> i < length ps \<Longrightarrow>
     (even i \<longrightarrow> list_all (\<lambda>ch. \<not> isdigit ch) (ps ! i) \<and>
                 ((inner \<or> 0 < i) \<and> Suc i < length ps \<longrightarrow> ps ! i \<noteq> [])) \<and>
     (odd i \<longrightarrow> ps ! i \<noteq> [] \<and> list_all isdigit (ps ! i))"
proof (induction inner ps arbitrary: i rule: pieces_ok.induct)
  case (1 inner)
  then show ?case by simp
next
  case (2 inner p)
  then show ?case by simp
next
  case (3 inner p d rest)
  show ?case
  proof (cases i)
    case 0
    with "3.prems" show ?thesis by simp
  next
    case (Suc j)
    show ?thesis
    proof (cases j)
      case 0
      with Suc "3.prems" show ?thesis by simp
    next
      case (Suc k)
      have i: "i = Suc (Suc k)" using Suc \<open>i = Suc j\<close> by simp
      from "3.prems" have ok: "pieces_ok True rest" and k: "k < length rest"
        by (simp_all add: i)
      note IH = "3.IH" [OF ok k]
      have nth: "(p # d # rest) ! i = rest ! k" by (simp add: i)
      have par: "even i = even k" by (simp add: i)
      have len: "(Suc i < length (p # d # rest)) = (Suc k < length rest)" by (simp add: i)
      show ?thesis unfolding nth par len using IH by blast
    qed
  qed
qed

lemma odd_length_pieces: "pieces_ok inner ps \<Longrightarrow> odd (length ps)"
  by (induction inner ps rule: pieces_ok.induct) auto

lemma try_int_nodigit: "list_all (\<lambda>ch. \<not> isdigit ch) p \<Longrightarrow> try_int p = Str p"
  by (cases p) (auto simp: try_int_def)

lemma try_int_digits: "d \<noteq> [] \<Longrightarrow> list_all isdigit d \<Longrightarrow> try_int d = Num (digit_value d)"
  by (simp add: try_int_def)

lemma typed_pieces: "pieces_ok inner ps \<Longrightarrow> typed_from True (map try_int ps)"
  by (induction inner ps rule: pieces_ok.induct) (auto simp: try_int_nodigit try_int_digits)

lemma typed_natural_key: "typed_from True (natural_key s)"
  unfolding natural_key_def
  by (rule typed_pieces [of False]) (simp add: re_split_digits_pieces)

lemma typed_from_nth:
  "typed_from b ts \<Longrightarrow> i < length ts \<Longrightarrow> is_Str (ts ! i) = (even i = b) \<and> is_Num (ts ! i) = (odd i = b)"
proof (induction ts arbitrary: b i)
  case Nil
  then show ?case by simp
next
  case (Cons t ts)
  show ?case
  proof (cases i)
    case 0
    with Cons.prems show ?thesis by (cases t) (auto split: if_splits)
  next
    case (Suc j)
    with Cons.prems have "typed_from (\<not> b) ts" "j < length ts" by auto
    from Cons.IH [OF this] Suc show ?thesis by auto
  qed
qed

lemma list_lt_typed:
  "typed_from b ts \<Longrightarrow> typed_from b us \<Longrightarrow> \<exists>r. list_lt ts us = Inr r"
proof (induction ts us arbitrary: b rule: list_lt.induct)
  case 1
  show ?case by (rule exI [of _ False]) simp
next
  case (2 y ys)
  show ?case by (rule exI [of _ True]) simp
next
  case (3 x xs)
  show ?case by (rule exI [of _ False]) simp
next
  case (4 x xs y ys)
  show ?case
  proof (cases "x = y")
    case True
    from True "4.prems" have "typed_from (\<not> b) xs" "typed_from (\<not> b) ys" by simp_all
    from "4.IH" [OF True this] show ?thesis using True by simp
  next
    case False
    from "4.prems" have "(is_Str x \<and> is_Str y) \<or> (is_Num x \<and> is_Num y)"
      by (cases b) simp_all
    then obtain r where "token_lt x y = Inr r"
      by (cases x; cases y) simp_all
    with False show ?thesis by simp
  qed
qed

lemma list_lt_natural_key: "\<exists>r. list_lt (natural_key s) (natural_key t) = Inr r"
  by (rule list_lt_typed [OF typed_natural_key typed_natural_key])

lemma insert_key_natural:
  "\<exists>zs. insert_key natural_key x ys = Inr zs \<and> mset zs = add_mset x (mset ys)"
proof (induction ys)
  case Nil
  then show ?case by simp
next
  case (Cons y ys)
  obtain r where r: "list_lt (natural_key y) (natural_key x) = Inr r"
    using list_lt_natural_key by blast
  from Cons obtain zs where "insert_key natural_key x ys = Inr zs" "mset zs = add_mset x (mset ys)"
    by blast
  with r show ?case by (cases r) simp_all
qed

lemma sorted_key_natural:
  "\<exists>ys. sorted_key natural_key xs = Inr ys \<and> mset ys = mset xs"
proof (induction xs)
  case Nil
  then show ?case by simp
next
  case (Cons x xs)
  then obtain ys where ys: "sorted_key natural_key xs = Inr ys" "mset ys = mset xs" by blast
  obtain zs where "insert_key natural_key x ys = Inr zs" "mset zs = add_mset x (mset ys)"
    using insert_key_natural by blast
  with ys show ?case by simp
qed

section \<open>Properties of the grouping index\<close>

lemma mset_setdefault_append:
  "mset (concat (map snd (setdefault_append k f d))) = add_mset f (mset (concat (map snd d)))"
  by (induction d) auto

lemma length_setdefault_append:
  "sum_list (map (\<lambda>e. length (snd e)) (setdefault_append k f d)) =
     Suc (sum_list (map (\<lambda>e. length (snd e)) d))"
  by (induction d) auto

lemma keys_setdefault_append:
  "set (map fst (setdefault_append k f d)) = insert k (set (map fst d))"
proof (induction d)
  case Nil
  show ?case by simp
next
  case (Cons e d)
  obtain k' fs where e: "e = (k', fs)" by (cases e)
  show ?case
  proof (cases "k' = k")
    case True
    then show ?thesis by (simp add: e)
  next
    case False
    have "set (map fst (setdefault_append k f (e # d))) =
            insert k' (set (map fst (setdefault_append k f d)))"
      using False by (simp add: e)
    also have "\<dots> = insert k (set (map fst (e # d)))"
      unfolding Cons.IH by (simp add: e insert_commute)
    finally show ?thesis .
  qed
qed

lemma distinct_setdefault_append:
  "distinct (map fst d) \<Longrightarrow> distinct (map fst (setdefault_append k f d))"
proof (induction d)
  case Nil
  show ?case by simp
next
  case (Cons e d)
  obtain k' fs where e: "e = (k', fs)" by (cases e)
  from Cons.prems have notin: "k' \<notin> set (map fst d)" and dist: "distinct (map fst d)"
    by (simp_all add: e)
  show ?case
  proof (cases "k' = k")
    case True
    with Cons.prems show ?thesis by (simp add: e)
  next
    case False
    with notin have "k' \<notin> set (map fst (setdefault_append k f d))"
      unfolding keys_setdefault_append by simp
    with False Cons.IH [OF dist] show ?thesis by (simp add: e)
  qed
qed

lemma map_of_setdefault_append:
  "map_of (setdefault_append k f d) k' =
     (if k' = k then Some ((case map_of d k of None \<Rightarrow> [] | Some fs \<Rightarrow> fs) @ [f])
      else map_of d k')"
  by (induction d) auto


lemma group_with_snoc: "group_with g (xs @ [x]) = setdefault_append (g x) x (group_with g xs)"
  by (simp add: group_with_def)

lemma group_with_invariant:
  "distinct (map fst (group_with g xs)) \<and>
   mset (concat (map snd (group_with g xs))) = mset xs \<and>
   sum_list (map (\<lambda>e. length (snd e)) (group_with g xs)) = length xs \<and>
   (\<forall>k. map_of (group_with g xs) k =
          (if filter (\<lambda>f. g f = k) xs = [] then None else Some (filter (\<lambda>f. g f = k) xs)))"
proof (induction xs rule: rev_induct)
  case Nil
  then show ?case by (simp add: group_with_def)
next
  case (snoc x xs)
  then show ?case
    by (simp add: group_with_snoc distinct_setdefault_append mset_setdefault_append
        length_setdefault_append map_of_setdefault_append)
qed

lemma get_middle_groups_group_with:
  "get_middle_groups filelist = group_with extract_middle_number filelist"
  by (simp add: get_middle_groups_def group_with_def)

lemma dict_get_middle_groups:
  "dict_get (get_middle_groups filelist) k =
     filter (\<lambda>f. extract_middle_number f = k) filelist"
  using group_with_invariant [of extract_middle_number filelist]
  by (simp add: dict_get_def get_middle_groups_group_with)

lemma dict_get_keys:
  "distinct (map fst d) \<Longrightarrow> map (dict_get d) (map fst d) = map snd d"
proof (induction d)
  case Nil
  then show ?case by simp
next
  case (Cons e d)
  obtain k v where e: "e = (k, v)" by (cases e)
  from Cons.prems have "\<forall>k' \<in> set (map fst d). dict_get (e # d) k' = dict_get d k'"
    by (auto simp: dict_get_def e)
  then have "map (dict_get (e # d)) (map fst d) = map (dict_get d) (map fst d)"
    by (intro map_cong) auto
  with Cons show ?case by (simp add: e dict_get_def)
qed

lemma mset_concat_map_cong:
  "mset ks = mset ks' \<Longrightarrow> mset (concat (map h ks)) = mset (concat (map h ks'))"
proof -
  assume eq: "mset ks = mset ks'"
  have "\<And>zs. mset (concat (map h zs)) = sum_mset (image_mset (\<lambda>k. mset (h k)) (mset zs))"
    by (induct_tac zs) simp_all
  then show ?thesis by (simp add: eq)
qed

section \<open>The claims about keys, sorting and grouping\<close>

text \<open>
  C10. In the natural-order key of any string the tokens at even positions are strings
  and the tokens at odd positions are integers; so the comparison of the keys of any two
  strings never meets an integer against a string (it returns a truth value, not the
  TypeError), and sorting any list of strings by this key never raises.
\<close>

theorem natural_key_typed_never_raises:
  "(\<forall>i < length (natural_key s).
      (even i \<longrightarrow> is_Str (natural_key s ! i)) \<and> (odd i \<longrightarrow> is_Num (natural_key s ! i))) \<and>
   (\<exists>r. list_lt (natural_key s) (natural_key t) = Inr r) \<and>
   (\<exists>ys. sorted_key natural_key xs = Inr ys)"
proof (intro conjI allI impI)
  fix i
  assume i: "i < length (natural_key s)"
  note nth = typed_from_nth [OF typed_natural_key i]
  show "is_Str (natural_key s ! i)" if "even i" using nth that by simp
  show "is_Num (natural_key s ! i)" if "odd i" using nth that by simp
next
  show "\<exists>r. list_lt (natural_key s) (natural_key t) = Inr r"
    by (rule list_lt_natural_key)
next
  from sorted_key_natural [of xs] show "\<exists>ys. sorted_key natural_key xs = Inr ys" by blast
qed

text \<open>C10 on the key of \<open>img10b\<close>, which has three tokens.\<close>

theorem natural_key_typed_never_raises_witness:
  "is_Str (natural_key ''img10b'' ! 0) \<and> is_Num (natural_key ''img10b'' ! 1) \<and>
   is_Str (natural_key ''img10b'' ! 2) \<and>
   list_lt (natural_key ''img10b'') (natural_key ''7'') \<noteq> Inl TypeError \<and>
   sorted_key natural_key [''img10b'', ''7'', ''x''] \<noteq> Inl TypeError"
proof -
  have len: "length (natural_key ''img10b'') = 3" by code_simp
  note T = natural_key_typed_never_raises [of "''img10b''" "''7''" "[''img10b'', ''7'', ''x'']"]
  from T have pos: "\<And>i. i < 3 \<Longrightarrow>
      (even i \<longrightarrow> is_Str (natural_key ''img10b'' ! i)) \<and>
      (odd i \<longrightarrow> is_Num (natural_key ''img10b'' ! i))"
    unfolding len by blast
  from pos [of 0] have p0: "is_Str (natural_key ''img10b'' ! 0)" by simp
  from pos [of 1] have p1: "is_Num (natural_key ''img10b'' ! 1)" by simp
  from pos [of 2] have p2: "is_Str (natural_key ''img10b'' ! 2)" by simp
  from T obtain r where "list_lt (natural_key ''img10b'') (natural_key ''7'') = Inr r" by blast
  then have lt: "list_lt (natural_key ''img10b'') (natural_key ''7'') \<noteq> Inl TypeError" by simp
  from T obtain ys where "sorted_key natural_key [''img10b'', ''7'', ''x''] = Inr ys" by blast
  then have so: "sorted_key natural_key [''img10b'', ''7'', ''x''] \<noteq> Inl TypeError"
    by (simp only: sum.distinct not_False_eq_True)
  from p0 p1 p2 lt so show ?thesis by (intro conjI)
qed

text \<open>
  C6. The pieces of a string are, in their original order (their concatenation is the
  string), alternately text without a digit and maximal non-empty digit runs; the key
  holds the text pieces as strings and the digit runs as their integer values, integers
  compare by value and strings lexicographically; sorting a10, a2, a1 by the key gives
  a1, a2, a10.
\<close>

theorem natural_key_digit_runs_by_value:
  "concat (re_split_digits s) = s \<and>
   length (natural_key s) = length (re_split_digits s) \<and>
   (\<forall>i < length (re_split_digits s).
      (even i \<longrightarrow> list_all (\<lambda>ch. \<not> isdigit ch) (re_split_digits s ! i) \<and>
                  (0 < i \<and> Suc i < length (re_split_digits s) \<longrightarrow> re_split_digits s ! i \<noteq> []) \<and>
                  natural_key s ! i = Str (re_split_digits s ! i)) \<and>
      (odd i \<longrightarrow> re_split_digits s ! i \<noteq> [] \<and> list_all isdigit (re_split_digits s ! i) \<and>
                 natural_key s ! i = Num (digit_value (re_split_digits s ! i)))) \<and>
   token_lt (Num m) (Num n) = Inr (m < n) \<and>
   token_lt (Str a) (Str b) = Inr (str_lt a b) \<and>
   sorted_key natural_key [''a10'', ''a2'', ''a1''] = Inr [''a1'', ''a2'', ''a10'']"
proof (intro conjI allI impI)
  show "concat (re_split_digits s) = s" by (rule concat_re_split_digits)
  show "length (natural_key s) = length (re_split_digits s)" by (simp add: natural_key_def)
  show "token_lt (Num m) (Num n) = Inr (m < n)" by simp
  show "token_lt (Str a) (Str b) = Inr (str_lt a b)" by simp
  show "sorted_key natural_key [''a10'', ''a2'', ''a1''] = Inr [''a1'', ''a2'', ''a10'']"
    by code_simp
next
  fix i
  assume i: "i < length (re_split_digits s)"
  have ok: "pieces_ok False (re_split_digits s)" by (simp add: re_split_digits_pieces)
  note nth = pieces_ok_nth [OF ok i]
  have key: "natural_key s ! i = try_int (re_split_digits s ! i)"
    using i by (simp add: natural_key_def)
  {
    assume "even i"
    with nth show "list_all (\<lambda>ch. \<not> isdigit ch) (re_split_digits s ! i)" by simp
    with key show "natural_key s ! i = Str (re_split_digits s ! i)"
      by (simp add: try_int_nodigit)
    assume "0 < i \<and> Suc i < length (re_split_digits s)"
    with nth \<open>even i\<close> show "re_split_digits s ! i \<noteq> []" by simp
  }
  {
    assume "odd i"
    with nth show "re_split_digits s ! i \<noteq> []" "list_all isdigit (re_split_digits s ! i)"
      by simp_all
    with key show "natural_key s ! i = Num (digit_value (re_split_digits s ! i))"
      by (simp add: try_int_digits)
  }
qed

text \<open>C6 on the string \<open>a10b2\<close>.\<close>

theorem natural_key_digit_runs_by_value_witness:
  "re_split_digits ''a10b2'' = [''a'', ''10'', ''b'', ''2'', ''''] \<and>
   natural_key ''a10b2'' ! 1 = Num 10 \<and> natural_key ''a10b2'' ! 2 = Str ''b'' \<and>
   sorted_key natural_key [''a10'', ''a2'', ''a1''] = Inr [''a1'', ''a2'', ''a10'']"
proof -
  have split: "re_split_digits ''a10b2'' = [''a'', ''10'', ''b'', ''2'', '''']" by code_simp
  have val: "digit_value ''10'' = 10" by code_simp
  from natural_key_digit_runs_by_value [of "''a10b2''"]
  show ?thesis unfolding split using val by (auto simp: less_Suc_eq numeral_2_eq_2)
qed

text \<open>
  C7. \<^verbatim>\<open>get_middle_groups\<close> is a stable partition of any file list: the middle keys are
  distinct, the bucket lengths add up to the length of the input, no entry is dropped or
  duplicated, and every bucket is the sublist of the input with that middle key, in the
  order of the input.
\<close>

theorem get_middle_groups_stable_partition:
  "distinct (map fst (get_middle_groups filelist)) \<and>
   sum_list (map (\<lambda>e. length (snd e)) (get_middle_groups filelist)) = length filelist \<and>
   mset (concat (map snd (get_middle_groups filelist))) = mset filelist \<and>
   (\<forall>e \<in> set (get_middle_groups filelist).
      snd e \<noteq> [] \<and> snd e = filter (\<lambda>f. extract_middle_number f = fst e) filelist) \<and>
   (\<forall>k. dict_get (get_middle_groups filelist) k =
          filter (\<lambda>f. extract_middle_number f = k) filelist)"
proof -
  note inv = group_with_invariant [of extract_middle_number filelist,
      folded get_middle_groups_group_with]
  from inv have dist: "distinct (map fst (get_middle_groups filelist))" by blast
  from inv have mo: "\<And>k. map_of (get_middle_groups filelist) k =
          (if filter (\<lambda>f. extract_middle_number f = k) filelist = [] then None
           else Some (filter (\<lambda>f. extract_middle_number f = k) filelist))" by blast
  have mem: "snd e \<noteq> [] \<and> snd e = filter (\<lambda>f. extract_middle_number f = fst e) filelist"
    if "e \<in> set (get_middle_groups filelist)" for e
  proof -
    from that have "(fst e, snd e) \<in> set (get_middle_groups filelist)" by simp
    then have "map_of (get_middle_groups filelist) (fst e) = Some (snd e)"
      by (rule map_of_is_SomeI [OF dist])
    then show ?thesis unfolding mo by (simp split: if_splits)
  qed
  have dg: "dict_get (get_middle_groups filelist) k =
          filter (\<lambda>f. extract_middle_number f = k) filelist" for k
    unfolding dict_get_def mo by simp
  from inv mem dg show ?thesis by blast
qed

text \<open>C7 on three files with two middle keys.\<close>

theorem get_middle_groups_stable_partition_witness:
  "get_middle_groups [''a_2_z.png'', ''a_5.png'', ''a_2_y.png''] =
     [(''2'', [''a_2_z.png'', ''a_2_y.png'']), ('''', [''a_5.png''])] \<and>
   sum_list (map (\<lambda>e. length (snd e)) (get_middle_groups [''a_2_z.png'', ''a_5.png'', ''a_2_y.png''])) = 3 \<and>
   dict_get (get_middle_groups [''a_2_z.png'', ''a_5.png'', ''a_2_y.png'']) ''2'' =
     filter (\<lambda>f. extract_middle_number f = ''2'') [''a_2_z.png'', ''a_5.png'', ''a_2_y.png'']"
proof -
  have ev: "get_middle_groups [''a_2_z.png'', ''a_5.png'', ''a_2_y.png''] =
     [(''2'', [''a_2_z.png'', ''a_2_y.png'']), ('''', [''a_5.png''])]" by code_simp
  from get_middle_groups_stable_partition [of "[''a_2_z.png'', ''a_5.png'', ''a_2_y.png'']"]
  show ?thesis using ev by simp
qed

text \<open>
  C5, as stated, fails: the top group of the files \<open>a_x_9.png\<close> and \<open>a_x1_0.png\<close> is
  sorted as \<open>a_x1_0.png, a_x_9.png\<close> (the text \<open>a_x\<close> is a proper prefix of
  \<open>a_x_\<close>), while the middle key \<open>x\<close> sorts before \<open>x1\<close>, so the concatenation of
  the middle groups is \<open>a_x_9.png, a_x1_0.png\<close>.
\<close>

theorem middle_concat_order_counterexample:
  "scan_folder [''a_x_9.png'', ''a_x1_0.png''] = Inr [(''a'', [''a_x1_0.png'', ''a_x_9.png''])] \<and>
   middle_concat [''a_x1_0.png'', ''a_x_9.png''] = Inr [''a_x_9.png'', ''a_x1_0.png'']"
  by code_simp

text \<open>
  C5, amended: for every file list, the concatenation of its middle-group lists in
  natural-key order of the middle keys is a permutation of the list (the same file names
  with the same multiplicities), and every middle group is the sublist of the list with
  that middle key, in the order of the list; the order across middle groups may differ.
\<close>

theorem middle_concat_permutation:
  "(\<exists>ys. middle_concat filelist = Inr ys \<and> mset ys = mset filelist) \<and>
   dict_get (get_middle_groups filelist) k =
     filter (\<lambda>f. extract_middle_number f = k) filelist"
proof (rule conjI [OF _ dict_get_middle_groups])
  let ?d = "get_middle_groups filelist"
  obtain ks where ks: "sorted_key natural_key (map fst ?d) = Inr ks" "mset ks = mset (map fst ?d)"
    using sorted_key_natural by blast
  note inv = group_with_invariant [of extract_middle_number filelist,
      folded get_middle_groups_group_with]
  from inv have dist: "distinct (map fst ?d)" by blast
  have "mset (concat (map (dict_get ?d) ks)) = mset (concat (map (dict_get ?d) (map fst ?d)))"
    by (rule mset_concat_map_cong [OF ks(2)])
  also have "\<dots> = mset (concat (map snd ?d))"
    unfolding dict_get_keys [OF dist] ..
  also have "\<dots> = mset filelist" using inv by blast
  finally show "\<exists>ys. middle_concat filelist = Inr ys \<and> mset ys = mset filelist"
    by (simp add: middle_concat_def sorted_middle_keys_def ks(1))
qed

text \<open>C5, amended, on the sorted top group of the counterexample.\<close>

theorem middle_concat_permutation_witness:
  "\<exists>ys. middle_concat [''a_x1_0.png'', ''a_x_9.png''] = Inr ys \<and>
        mset ys = mset [''a_x1_0.png'', ''a_x_9.png'']"
  using middle_concat_permutation [of "[''a_x1_0.png'', ''a_x_9.png'']"] by blast


section \<open>Properties of the navigation cursor\<close>

lemma left_count_current_index [simp]:
  "left_count (s\<lparr>current_index := i\<rparr>) = left_count s"
  by (simp add: left_count_def)

lemma middle_rows_current_index [simp]:
  "middle_rows (s\<lparr>current_index := i\<rparr>) = middle_rows s"
  by (simp add: middle_rows_def)

lemma middle_count_current_index [simp]:
  "middle_count (s\<lparr>current_index := i\<rparr>) = middle_count s"
  by (simp add: middle_count_def)

lemma files_current_index [simp]:
  "get_all_files_in_current_group (s\<lparr>current_index := i\<rparr>) = get_all_files_in_current_group s"
  by (simp add: get_all_files_in_current_group_def)

lemma next_at_last:
  assumes "left_row s = left_count s - 1" "middle_row s = middle_count s - 1"
  shows "move_to_next_middle_group (s\<lparr>current_index := i\<rparr>) = (False, s\<lparr>current_index := i\<rparr>)"
  using assms
  by (simp add: move_to_next_middle_group_def move_to_next_left_group_def Let_def)

lemma prev_at_first:
  assumes "left_row s = 0" "middle_row s = 0"
  shows "move_to_prev_middle_group (s\<lparr>current_index := i\<rparr>) = (False, s\<lparr>current_index := i\<rparr>)"
  using assms
  by (simp add: move_to_prev_middle_group_def move_to_prev_left_group_def Let_def)

text \<open>
  C4, as stated, fails: with two top groups of one middle group and one file each, the
  right key on the last file leaves the cursor on that file of the second group, and
  the left key on the first file leaves it on the first file of the first group; the
  top row never changes.
\<close>

theorem cursor_wrap_counterexample:
  "at_last_file \<lparr>tops = two_groups, left_row = 1, middle_row = 0, current_index = 0, closed = False\<rparr> \<and>
   keyPressEvent_Right \<lparr>tops = two_groups, left_row = 1, middle_row = 0, current_index = 0, closed = False\<rparr>
     = \<lparr>tops = two_groups, left_row = 1, middle_row = 0, current_index = 0, closed = False\<rparr> \<and>
   current_file (keyPressEvent_Right
       \<lparr>tops = two_groups, left_row = 1, middle_row = 0, current_index = 0, closed = False\<rparr>)
     = Some ''b_1_y.png'' \<and>
   at_first_file \<lparr>tops = two_groups, left_row = 0, middle_row = 0, current_index = 0, closed = False\<rparr> \<and>
   current_file (keyPressEvent_Left
       \<lparr>tops = two_groups, left_row = 0, middle_row = 0, current_index = 0, closed = False\<rparr>)
     = Some ''a_1_x.png''"
  by (simp add: at_last_file_def at_first_file_def keyPressEvent_Right_def keyPressEvent_Left_def
      move_to_next_middle_group_def move_to_next_left_group_def
      move_to_prev_middle_group_def move_to_prev_left_group_def
      show_current_image_def get_all_files_in_current_group_def current_file_def
      middle_count_def middle_rows_def left_count_def two_groups_def Let_def)

text \<open>
  C4, amended: advancing forward from the last file of the last middle group of the
  last top group keeps the top and middle selection and moves the cursor to the first
  file of that same middle group; advancing backward from the first file of the first
  middle group of the first top group keeps the selection and moves the cursor to the
  last file of that same middle group.
\<close>

theorem cursor_wraps_within_group:
  "(at_last_file s \<longrightarrow> keyPressEvent_Right s = s\<lparr>current_index := 0\<rparr>) \<and>
   (at_first_file s \<longrightarrow>
      keyPressEvent_Left s =
        s\<lparr>current_index := int (length (get_all_files_in_current_group s)) - 1\<rparr>)"
proof (intro conjI impI)
  assume a: "at_last_file s"
  then have rows: "left_row s = left_count s - 1" "middle_row s = middle_count s - 1"
    and files: "get_all_files_in_current_group s \<noteq> []"
    and idx: "current_index s = int (length (get_all_files_in_current_group s)) - 1"
    by (simp_all add: at_last_file_def)
  show "keyPressEvent_Right s = s\<lparr>current_index := 0\<rparr>"
    using files idx
    by (simp add: keyPressEvent_Right_def Let_def next_at_last [OF rows] show_current_image_def)
next
  assume a: "at_first_file s"
  then have rows: "left_row s = 0" "middle_row s = 0"
    and files: "get_all_files_in_current_group s \<noteq> []"
    and idx: "current_index s = 0"
    by (simp_all add: at_first_file_def)
  show "keyPressEvent_Left s =
        s\<lparr>current_index := int (length (get_all_files_in_current_group s)) - 1\<rparr>"
    using files idx
    by (simp add: keyPressEvent_Left_def Let_def prev_at_first [OF rows] show_current_image_def)
qed

text \<open>C4, amended, on groups of two files.\<close>

theorem cursor_wraps_within_group_witness:
  "keyPressEvent_Right
     \<lparr>tops = [[[''a_1_x.png'']], [[''b_1_y.png'', ''b_1_z.png'']]],
      left_row = 1, middle_row = 0, current_index = 1, closed = False\<rparr>
   = \<lparr>tops = [[[''a_1_x.png'']], [[''b_1_y.png'', ''b_1_z.png'']]],
      left_row = 1, middle_row = 0, current_index = 0, closed = False\<rparr> \<and>
   keyPressEvent_Left
     \<lparr>tops = [[[''a_1_x.png'', ''a_1_y.png'']], [[''b_1_y.png'']]],
      left_row = 0, middle_row = 0, current_index = 0, closed = False\<rparr>
   = \<lparr>tops = [[[''a_1_x.png'', ''a_1_y.png'']], [[''b_1_y.png'']]],
      left_row = 0, middle_row = 0, current_index = 1, closed = False\<rparr>"
  using cursor_wraps_within_group
      [of "\<lparr>tops = [[[''a_1_x.png'']], [[''b_1_y.png'', ''b_1_z.png'']]],
             left_row = 1, middle_row = 0, current_index = 1, closed = False\<rparr>"]
    cursor_wraps_within_group
      [of "\<lparr>tops = [[[''a_1_x.png'', ''a_1_y.png'']], [[''b_1_y.png'']]],
             left_row = 0, middle_row = 0, current_index = 0, closed = False\<rparr>"]
  by (simp add: at_last_file_def at_first_file_def get_all_files_in_current_group_def
      middle_count_def middle_rows_def left_count_def)

section \<open>Properties of the animation player\<close>

lemma next_index_in_range:
  "xs \<noteq> [] \<Longrightarrow> 0 \<le> (i + 1) mod int (length xs) \<and> (i + 1) mod int (length xs) < int (length xs)"
  by simp

text \<open>
  C8. With a non-empty frame list, a timer fire sets the frame index to the successor
  modulo the number of frames, shows that frame and sets the timer interval to that
  frame's own duration; three frames with durations 50, 100 and 150 cycle 0, 1, 2, 0,
  ... and the interval after showing frame 2 is 150.
\<close>

theorem next_apng_frame_steps:
  "(apng_frames s \<noteq> [] \<longrightarrow>
      apng_frame_index (next_apng_frame s) =
        (apng_frame_index s + 1) mod int (length (apng_frames s)) \<and>
      0 \<le> apng_frame_index (next_apng_frame s) \<and>
      apng_frame_index (next_apng_frame s) < int (length (apng_frames s)) \<and>
      current_pixmap (next_apng_frame s) =
        Some (frame_pixmap (apng_frames s ! nat (apng_frame_index (next_apng_frame s)))) \<and>
      timer_interval (next_apng_frame s) =
        frame_duration (apng_frames s ! nat (apng_frame_index (next_apng_frame s))) \<and>
      apng_frames (next_apng_frame s) = apng_frames s \<and>
      timer_active (next_apng_frame s) = timer_active s) \<and>
   map (\<lambda>n. (apng_frame_index ((next_apng_frame ^^ n) (show_cached_apng three_frames idle_player)),
             timer_interval ((next_apng_frame ^^ n) (show_cached_apng three_frames idle_player))))
       [0, 1, 2, 3, 4]
     = [(0, 50), (1, 100), (2, 150), (0, 50), (1, 100)]"
proof (intro conjI impI)
  assume ne: "apng_frames s \<noteq> []"
  let ?i = "(apng_frame_index s + 1) mod int (length (apng_frames s))"
  from ne have rng: "0 \<le> ?i" "?i < int (length (apng_frames s))" by simp_all
  have eq: "next_apng_frame s =
      s\<lparr>apng_frame_index := ?i,
        current_pixmap := Some (frame_pixmap (apng_frames s ! nat ?i)),
        timer_interval := frame_duration (apng_frames s ! nat ?i)\<rparr>"
    using ne rng by (simp add: next_apng_frame_def show_apng_frame_def Let_def)
  show "apng_frame_index (next_apng_frame s) = ?i" by (simp add: eq)
  show "0 \<le> apng_frame_index (next_apng_frame s)" using rng by (simp add: eq)
  show "apng_frame_index (next_apng_frame s) < int (length (apng_frames s))"
    using rng by (simp add: eq)
  show "current_pixmap (next_apng_frame s) =
        Some (frame_pixmap (apng_frames s ! nat (apng_frame_index (next_apng_frame s))))"
    by (simp add: eq)
  show "timer_interval (next_apng_frame s) =
        frame_duration (apng_frames s ! nat (apng_frame_index (next_apng_frame s)))"
    by (simp add: eq)
  show "apng_frames (next_apng_frame s) = apng_frames s" by (simp add: eq)
  show "timer_active (next_apng_frame s) = timer_active s" by (simp add: eq)
next
  show "map (\<lambda>n. (apng_frame_index ((next_apng_frame ^^ n) (show_cached_apng three_frames idle_player)),
             timer_interval ((next_apng_frame ^^ n) (show_cached_apng three_frames idle_player))))
       [0, 1, 2, 3, 4]
     = [(0, 50), (1, 100), (2, 150), (0, 50), (1, 100)]"
    by (simp add: numeral_eq_Suc next_apng_frame_def show_apng_frame_def show_cached_apng_def
        three_frames_def idle_player_def Let_def)
qed

text \<open>C8 on the three frames, from frame 1 and from frame 2.\<close>

theorem next_apng_frame_steps_witness:
  "apng_frame_index (next_apng_frame
      \<lparr>apng_frames = three_frames, apng_frame_index = 1, current_pixmap = Some 1,
       timer_active = True, timer_interval = 100\<rparr>) = 2 \<and>
   timer_interval (next_apng_frame
      \<lparr>apng_frames = three_frames, apng_frame_index = 1, current_pixmap = Some 1,
       timer_active = True, timer_interval = 100\<rparr>) = 150 \<and>
   apng_frame_index (next_apng_frame
      \<lparr>apng_frames = three_frames, apng_frame_index = 2, current_pixmap = Some 2,
       timer_active = True, timer_interval = 150\<rparr>) = 0"
  using next_apng_frame_steps
      [of "\<lparr>apng_frames = three_frames, apng_frame_index = 1, current_pixmap = Some 1,
             timer_active = True, timer_interval = 100\<rparr>"]
    next_apng_frame_steps
      [of "\<lparr>apng_frames = three_frames, apng_frame_index = 2, current_pixmap = Some 2,
             timer_active = True, timer_interval = 150\<rparr>"]
  by (simp add: three_frames_def)

section \<open>Properties of the preloader worker\<close>

lemma is_apng_iff: "is_apng env filepath \<longleftrightarrow> pil_is_animated env filepath = Inr True"
  by (simp add: is_apng_def split: sum.splits)

lemma load_apng_frames_Some:
  "load_apng_frames env filepath = Some frames \<longleftrightarrow>
     (\<exists>raw. pil_frames env filepath = Inr raw \<and> raw \<noteq> [] \<and>
        frames = map (\<lambda>(pm, ms). Frame pm (case ms of None \<Rightarrow> 100 | Some m \<Rightarrow> m)) raw)"
  by (auto simp: load_apng_frames_def Let_def split: sum.splits)

lemma process_item_event:
  "process_item env filepath = Inr [ImageLoaded filepath d] \<longleftrightarrow> decodes_to env filepath d"
proof (cases "path_exists env filepath")
  case False
  then show ?thesis by (simp add: process_item_def decodes_to_def)
next
  case True
  show ?thesis
  proof (cases "splitext_lower env filepath = ''.png'' \<and> pil_is_animated env filepath = Inr True")
    case png: True
    then have "process_item env filepath =
        (case load_apng_frames env filepath of
           Some frames \<Rightarrow> Inr [ImageLoaded filepath (Frames frames)] | None \<Rightarrow> Inr [])"
      using True by (simp add: process_item_def is_apng_iff)
    then have "process_item env filepath = Inr [ImageLoaded filepath d] \<longleftrightarrow>
        (\<exists>frames. load_apng_frames env filepath = Some frames \<and> d = Frames frames)"
      by (auto split: option.splits)
    then show ?thesis
      using True png unfolding load_apng_frames_Some decodes_to_def by auto
  next
    case other: False
    then have "process_item env filepath =
        (case qpixmap env filepath of
           Inl e \<Rightarrow> Inl e | Inr None \<Rightarrow> Inr []
         | Inr (Some pixmap) \<Rightarrow> Inr [ImageLoaded filepath (Still pixmap)])"
      using True by (auto simp: process_item_def is_apng_iff)
    then have "process_item env filepath = Inr [ImageLoaded filepath d] \<longleftrightarrow>
        (\<exists>pm. qpixmap env filepath = Inr (Some pm) \<and> d = Still pm)"
      by (auto split: sum.splits option.splits)
    then show ?thesis
      using True other unfolding decodes_to_def by auto
  qed
qed

lemma process_item_raises:
  "process_item env filepath = Inl e \<longleftrightarrow>
     path_exists env filepath \<and>
     \<not> (splitext_lower env filepath = ''.png'' \<and> pil_is_animated env filepath = Inr True) \<and>
     qpixmap env filepath = Inl e"
  by (auto simp: process_item_def Let_def is_apng_iff split: sum.splits option.splits)

lemma process_item_cases:
  "process_item env filepath = Inr [] \<or>
   (\<exists>d. process_item env filepath = Inr [ImageLoaded filepath d]) \<or>
   (\<exists>e. process_item env filepath = Inl e \<and> qpixmap env filepath = Inl e)"
  by (auto simp: process_item_def Let_def split: sum.splits option.splits)


lemma run_pops:
  "run env (pops paths @ rest) w =
     run env rest (w\<lparr>events := events w @ concat (map (emitted env) paths),
                     logged := logged w @ concat (map (raised env) paths)\<rparr>)"
proof (induction paths arbitrary: w)
  case Nil
  then show ?case by (simp add: pops_def)
next
  case (Cons p paths)
  have step: "run env (pops (p # paths) @ rest) w =
      run env (pops paths @ rest)
        (w\<lparr>events := events w @ emitted env p, logged := logged w @ raised env p\<rparr>)"
    by (cases "process_item env p") (simp_all add: pops_def emitted_def raised_def)
  show ?case unfolding step Cons.IH by simp
qed

text \<open>
  C9, as stated, fails in one part: a decode failure is not always logged. For an
  animated PNG whose frames cannot be read, \<^verbatim>\<open>_load_apng_frames\<close> catches the exception
  itself and returns None; the worker emits nothing and logs nothing.
\<close>

theorem apng_failure_not_logged_counterexample:
  "path_exists demo_env ''broken.png'' \<and>
   pil_frames demo_env ''broken.png'' = Inl ''cannot identify image file'' \<and>
   events (run demo_env (pops [''broken.png'']) fresh_worker) = [] \<and>
   logged (run demo_env (pops [''broken.png'']) fresh_worker) = []"
  by (simp add: pops_def process_item_def demo_env_def is_apng_def load_apng_frames_def
      fresh_worker_def)

text \<open>
  C9, amended. A popped path gives exactly the one event with the decoded value when
  its decode succeeds, and no event otherwise; a missing file is skipped without event
  or log entry; no decode failure leaves the worker or ends its loop: the exceptions
  that reach the handler of the loop (those of the still-image branch) are logged and
  the loop goes on, the failures of the APNG helpers and null pixmaps give neither an
  event nor a log entry. Over any sequence of popped paths the worker emits the events
  of the successful ones in order, logs the exceptions and is still running.
\<close>

theorem worker_emits_once_and_survives:
  "(process_item env filepath = Inr [ImageLoaded filepath d] \<longleftrightarrow> decodes_to env filepath d) \<and>
   ((\<nexists>d'. decodes_to env filepath d') \<longrightarrow> emitted env filepath = []) \<and>
   length (emitted env filepath) \<le> 1 \<and>
   (\<not> path_exists env filepath \<longrightarrow>
      process_item env filepath = Inr [] \<and>
      run env ((False, Got (Some filepath), False) # rest) w = run env rest w) \<and>
   (process_item env filepath = Inl e \<longleftrightarrow>
      path_exists env filepath \<and>
      \<not> (splitext_lower env filepath = ''.png'' \<and> pil_is_animated env filepath = Inr True) \<and>
      qpixmap env filepath = Inl e) \<and>
   (process_item env filepath = Inl e \<longrightarrow>
      run env ((False, Got (Some filepath), False) # rest) w =
        run env rest (w\<lparr>logged := logged w @ [e]\<rparr>)) \<and>
   events (run env (pops paths) w) = events w @ concat (map (emitted env) paths) \<and>
   logged (run env (pops paths) w) = logged w @ concat (map (raised env) paths) \<and>
   running (run env (pops paths) w) = running w"
proof (intro conjI impI)
  show "process_item env filepath = Inr [ImageLoaded filepath d] \<longleftrightarrow> decodes_to env filepath d"
    by (rule process_item_event)
next
  assume none: "\<nexists>d'. decodes_to env filepath d'"
  then have "\<And>d'. process_item env filepath \<noteq> Inr [ImageLoaded filepath d']"
    by (simp add: process_item_event)
  with process_item_cases [of env filepath] show "emitted env filepath = []"
    by (auto simp: emitted_def)
next
  from process_item_cases [of env filepath] show "length (emitted env filepath) \<le> 1"
    by (auto simp: emitted_def)
next
  assume gone: "\<not> path_exists env filepath"
  then show p: "process_item env filepath = Inr []" by (simp add: process_item_def)
  show "run env ((False, Got (Some filepath), False) # rest) w = run env rest w"
    by (simp add: p)
next
  show "process_item env filepath = Inl e \<longleftrightarrow>
      path_exists env filepath \<and>
      \<not> (splitext_lower env filepath = ''.png'' \<and> pil_is_animated env filepath = Inr True) \<and>
      qpixmap env filepath = Inl e"
    by (rule process_item_raises)
next
  assume "process_item env filepath = Inl e"
  then show "run env ((False, Got (Some filepath), False) # rest) w =
        run env rest (w\<lparr>logged := logged w @ [e]\<rparr>)"
    by simp
next
  note rp = run_pops [of env paths "[]" w, simplified]
  show "events (run env (pops paths) w) = events w @ concat (map (emitted env) paths)"
    by (simp add: rp)
  show "logged (run env (pops paths) w) = logged w @ concat (map (raised env) paths)"
    by (simp add: rp)
  show "running (run env (pops paths) w) = running w"
    by (simp add: rp)
qed

text \<open>
  C9, amended, on five paths: two decode, one is missing, one raises, one gives a null
  pixmap.
\<close>

theorem worker_emits_once_and_survives_witness:
  "\<not> path_exists demo_env ''gone.jpg'' \<and>
   process_item demo_env ''bad.jpg'' = Inl ''out of memory'' \<and>
   decodes_to demo_env ''ok.jpg'' (Still 7) \<and>
   events (run demo_env (pops [''ok.jpg'', ''gone.jpg'', ''bad.jpg'', ''anim.png'', ''none.jpg'']) fresh_worker)
     = [ImageLoaded ''ok.jpg'' (Still 7),
        ImageLoaded ''anim.png'' (Frames [Frame 1 50, Frame 2 100])] \<and>
   logged (run demo_env (pops [''ok.jpg'', ''gone.jpg'', ''bad.jpg'', ''anim.png'', ''none.jpg'']) fresh_worker)
     = [''out of memory''] \<and>
   running (run demo_env (pops [''ok.jpg'', ''gone.jpg'', ''bad.jpg'', ''anim.png'', ''none.jpg'']) fresh_worker)"
proof -
  have items: "map (process_item demo_env) [''ok.jpg'', ''gone.jpg'', ''bad.jpg'', ''anim.png'', ''none.jpg'']
     = [Inr [ImageLoaded ''ok.jpg'' (Still 7)], Inr [], Inl ''out of memory'',
        Inr [ImageLoaded ''anim.png'' (Frames [Frame 1 50, Frame 2 100])], Inr []]"
    by (simp add: process_item_def demo_env_def is_apng_def load_apng_frames_def)
  have gone: "\<not> path_exists demo_env ''gone.jpg''" by (simp add: demo_env_def)
  note T = worker_emits_once_and_survives
      [of demo_env "''ok.jpg''" "Still 7" "[]" fresh_worker "''out of memory''"
          "[''ok.jpg'', ''gone.jpg'', ''bad.jpg'', ''anim.png'', ''none.jpg'']"]
  from T items gone show ?thesis
    by (simp add: emitted_def raised_def fresh_worker_def)
qed

end
